theory Spec2Isabelle
  imports
    Complex_Main
    "HOL-Library.Multiset"
    "HOL-Library.Product_Lexorder"
begin

section \<open>Python values used by \<^verbatim>\<open>aqs_cli.py\<close>\<close>

text \<open>
  A Python \<^verbatim>\<open>str\<close> is modelled as a \<^typ>\<open>string\<close> whose characters are the code points
  0..255. On these code points \<^verbatim>\<open>str.lower\<close>, \<^verbatim>\<open>str.isspace\<close> and the line boundaries of
  \<^verbatim>\<open>str.splitlines\<close> are the ones written below, and \<^verbatim>\<open>len\<close> is \<^const>\<open>length\<close>.
  The exceptions the source can raise by itself are values of \<open>py_error\<close>.
\<close>

datatype py_error = IndexError | ValueError

definition isspace :: "char \<Rightarrow> bool" where
  \<comment> \<open>\<^verbatim>\<open>\t \n \v \f \r\<close>, \<^verbatim>\<open>\x1c..\x1f\<close>, space, \<^verbatim>\<open>\x85\<close>, \<^verbatim>\<open>\xa0\<close>\<close>
  "isspace c =
     (let n = (of_char c :: nat)
      in (9 \<le> n \<and> n \<le> 13) \<or> (28 \<le> n \<and> n \<le> 32) \<or> n = 133 \<or> n = 160)"

definition lower_char :: "char \<Rightarrow> char" where
  \<comment> \<open>\<^verbatim>\<open>A..Z\<close> and \<^verbatim>\<open>\xc0..\xde\<close> except the multiplication sign \<^verbatim>\<open>\xd7\<close>\<close>
  "lower_char c =
     (let n = (of_char c :: nat)
      in if (65 \<le> n \<and> n \<le> 90) \<or> (192 \<le> n \<and> n \<le> 222 \<and> n \<noteq> 215)
         then char_of (n + 32) else c)"

definition lower :: "string \<Rightarrow> string" where
  "lower s = map lower_char s"

definition startswith :: "string \<Rightarrow> string \<Rightarrow> bool" where
  \<comment> \<open>\<^verbatim>\<open>s.startswith(p)\<close>\<close>
  "startswith s p = (take (length p) s = p)"

fun find_sub :: "string \<Rightarrow> string \<Rightarrow> nat option" where
  \<comment> \<open>the left-to-right search behind \<^verbatim>\<open>sub in s\<close> and \<^verbatim>\<open>s.index(sub)\<close>\<close>
  "find_sub [] sub = (if sub = [] then Some 0 else None)"
| "find_sub (c # cs) sub =
     (if startswith (c # cs) sub then Some 0 else map_option Suc (find_sub cs sub))"

definition contains :: "string \<Rightarrow> string \<Rightarrow> bool" where
  \<comment> \<open>\<^verbatim>\<open>sub in s\<close>\<close>
  "contains s sub = (find_sub s sub \<noteq> None)"

definition index :: "string \<Rightarrow> string \<Rightarrow> py_error + nat" where
  \<comment> \<open>\<^verbatim>\<open>s.index(sub)\<close> raises ValueError when \<^verbatim>\<open>sub\<close> does not occur\<close>
  "index s sub = (case find_sub s sub of None \<Rightarrow> Inl ValueError | Some i \<Rightarrow> Inr i)"

definition item_at :: "'a list \<Rightarrow> nat \<Rightarrow> py_error + 'a" where
  \<comment> \<open>\<^verbatim>\<open>xs[i]\<close> for \<^verbatim>\<open>i >= 0\<close>\<close>
  "item_at xs i = (if i < length xs then Inr (xs ! i) else Inl IndexError)"

fun split_scan :: "string \<Rightarrow> string \<Rightarrow> string list" where
  \<comment> \<open>the scan of \<^verbatim>\<open>s.split()\<close>: \<open>cur\<close> is the token read so far\<close>
  "split_scan cur [] = (if cur = [] then [] else [cur])"
| "split_scan cur (c # cs) =
     (if isspace c then (if cur = [] then split_scan [] cs else cur # split_scan [] cs)
      else split_scan (cur @ [c]) cs)"

definition split :: "string \<Rightarrow> string list" where
  \<comment> \<open>\<^verbatim>\<open>s.split()\<close>: maximal runs of non-whitespace characters\<close>
  "split s = split_scan [] s"

section \<open>The ranker: \<^verbatim>\<open>sort_by_similarity\<close>\<close>

text \<open>
  \<^verbatim>\<open>fuzz.partial_ratio\<close> belongs to the rapidfuzz library. It is the parameter \<open>fuzz\<close>;
  its values are floats, read as the real numbers they denote. The integer tiers are
  compared with them exactly, as Python compares an int with a float.
\<close>

type_synonym scorer = "string \<Rightarrow> string \<Rightarrow> real"

definition score_item :: "scorer \<Rightarrow> string \<Rightarrow> string \<Rightarrow> py_error + (real \<times> nat)" where
  "score_item fuzz query_lower item =
     (let item_lower = lower item in
      if item_lower = query_lower then Inr (1000, 0)
      else if startswith item_lower (query_lower @ '' '')
              \<or> startswith item_lower (query_lower @ [CHR 0x09])
        then Inr (900, length item)
      else if item_lower = query_lower then Inr (900, 0)
      else
        (case (if split item_lower \<noteq> [] then item_at (split item_lower) 0 else Inr [])
         of Inl e \<Rightarrow> Inl e
          | Inr first_word \<Rightarrow>
              if first_word = query_lower then Inr (850, length item)
              else if startswith first_word query_lower then Inr (800, length item)
              else
                (let words = split item_lower in
                 if query_lower \<in> set words then Inr (700, length item)
                 else if contains item_lower ('' '' @ query_lower)
                         \<or> contains item_lower (''/'' @ query_lower)
                   then Inr (600, length item)
                 else if contains item_lower query_lower then
                   (case index item_lower query_lower
                    of Inl e \<Rightarrow> Inl e
                     | Inr pos \<Rightarrow> Inr (500 - real pos, length item))
                 else Inr (fuzz query_lower item_lower, length item))))"

fun score_all :: "scorer \<Rightarrow> string \<Rightarrow> string list
    \<Rightarrow> py_error + (string \<times> real \<times> nat) list" where
  \<comment> \<open>\<^verbatim>\<open>[(item, score_item(item)) for item in items]\<close>\<close>
  "score_all fuzz query_lower [] = Inr []"
| "score_all fuzz query_lower (item # items) =
     (case score_item fuzz query_lower item
      of Inl e \<Rightarrow> Inl e
       | Inr s \<Rightarrow>
           (case score_all fuzz query_lower items
            of Inl e \<Rightarrow> Inl e
             | Inr rest \<Rightarrow> Inr ((item, s) # rest)))"

definition sort_key_of :: "string \<times> real \<times> nat \<Rightarrow> real \<times> nat" where
  \<comment> \<open>\<^verbatim>\<open>lambda x: (-x[1][0], x[1][1])\<close>; Python compares the tuples lexicographically\<close>
  "sort_key_of x = (- fst (snd x), snd (snd x))"

definition sort_by_similarity :: "scorer \<Rightarrow> string option \<Rightarrow> string list
    \<Rightarrow> py_error + string list" where
  \<comment> \<open>\<^verbatim>\<open>list.sort\<close> is a stable sort, as \<^const>\<open>sort_key\<close> is\<close>
  "sort_by_similarity fuzz query items =
     (case query of
        None \<Rightarrow> Inr items
      | Some q \<Rightarrow>
          if q = [] then Inr items
          else
            (let query_lower = lower q in
             case score_all fuzz query_lower items
             of Inl e \<Rightarrow> Inl e
              | Inr scored \<Rightarrow> Inr (map fst (sort_key sort_key_of scored))))"

definition score_of :: "scorer \<Rightarrow> string \<Rightarrow> string \<Rightarrow> real \<times> nat" where
  \<comment> \<open>the pair \<^verbatim>\<open>score_item\<close> returns, once it is known to return\<close>
  "score_of fuzz query_lower item =
     (case score_item fuzz query_lower item of Inr s \<Rightarrow> s | Inl e \<Rightarrow> (0, 0))"

definition rank_key :: "scorer \<Rightarrow> string \<Rightarrow> string \<Rightarrow> real \<times> nat" where
  \<comment> \<open>the sort key of an item: tier negated, then tiebreak\<close>
  "rank_key fuzz query_lower item =
     (- fst (score_of fuzz query_lower item), snd (score_of fuzz query_lower item))"


definition zero_fuzz :: scorer where
  \<comment> \<open>a scorer that finds nothing similar, for concrete runs\<close>
  "zero_fuzz a b = 0"

section \<open>The normalizer: \<^verbatim>\<open>read_history\<close>\<close>

text \<open>
  The file system is a partial map from the text of a path to the decoded text of the
  file; a path that does not exist or cannot be read is not in its domain.
\<close>

type_synonym filesystem = "string \<rightharpoonup> string"

definition is_linebreak :: "char \<Rightarrow> bool" where
  \<comment> \<open>\<^verbatim>\<open>\n \v \f \r\<close>, \<^verbatim>\<open>\x1c \x1d \x1e\<close> and \<^verbatim>\<open>\x85\<close>\<close>
  "is_linebreak c =
     (let n = (of_char c :: nat) in (10 \<le> n \<and> n \<le> 13) \<or> (28 \<le> n \<and> n \<le> 30) \<or> n = 133)"

fun splitlines_scan :: "string \<Rightarrow> string \<Rightarrow> string list" where
  \<comment> \<open>the scan of \<^verbatim>\<open>s.splitlines()\<close>: \<open>cur\<close> is the line read so far; \<^verbatim>\<open>\r\n\<close> is one break\<close>
  "splitlines_scan cur [] = (if cur = [] then [] else [cur])"
| "splitlines_scan cur [c] = (if is_linebreak c then [cur] else [cur @ [c]])"
| "splitlines_scan cur (c # d # cs) =
     (if c = CHR 0x0D \<and> d = CHR 0x0A then cur # splitlines_scan [] cs
      else if is_linebreak c then cur # splitlines_scan [] (d # cs)
      else splitlines_scan (cur @ [c]) (d # cs))"

definition splitlines :: "string \<Rightarrow> string list" where
  "splitlines s = splitlines_scan [] s"

definition strip :: "string \<Rightarrow> string" where
  \<comment> \<open>\<^verbatim>\<open>s.strip()\<close>\<close>
  "strip s = rev (dropWhile isspace (rev (dropWhile isspace s)))"

definition rstrip_newline :: "string \<Rightarrow> string" where
  \<comment> \<open>\<^verbatim>\<open>s.rstrip('\n')\<close>\<close>
  "rstrip_newline s = rev (dropWhile (\<lambda>c. c = CHR 0x0A) (rev s))"

definition split_colon_once :: "string \<Rightarrow> string list" where
  \<comment> \<open>\<^verbatim>\<open>s.split(':', 1)\<close>\<close>
  "split_colon_once s =
     (if CHR '':'' \<in> set s
      then [takeWhile (\<lambda>c. c \<noteq> CHR '':'') s, tl (dropWhile (\<lambda>c. c \<noteq> CHR '':'') s)]
      else [s])"

fun fish_lines :: "string list \<Rightarrow> string list \<Rightarrow> py_error + string list" where
  \<comment> \<open>the loop over the lines of a fish history; \<open>cmds\<close> is the list built so far\<close>
  "fish_lines [] cmds = Inr cmds"
| "fish_lines (line # rest) cmds =
     (let line = strip line in
      if startswith line ''- cmd:'' then
        (case item_at (split_colon_once line) 1
         of Inl e \<Rightarrow> Inl e
          | Inr after \<Rightarrow>
              (let cmd = strip after in
               if cmd \<noteq> [] then fish_lines rest (cmds @ [cmd]) else fish_lines rest cmds))
      else fish_lines rest cmds)"

fun plain_lines :: "string list \<Rightarrow> string list \<Rightarrow> string list" where
  \<comment> \<open>the loop over the lines of a bash or zsh history\<close>
  "plain_lines [] cmds = cmds"
| "plain_lines (line # rest) cmds =
     (let line = rstrip_newline line in
      if line = [] then plain_lines rest cmds else plain_lines rest (cmds @ [line]))"

fun read_paths :: "filesystem \<Rightarrow> string list \<Rightarrow> string list \<Rightarrow> py_error + string list" where
  \<comment> \<open>the loop over \<^verbatim>\<open>paths\<close>\<close>
  "read_paths fs [] cmds = Inr cmds"
| "read_paths fs (p # ps) cmds =
     (case fs p of
        None \<Rightarrow> read_paths fs ps cmds
      | Some text \<Rightarrow>
          if contains p ''fish_history'' then
            (case fish_lines (splitlines text) cmds
             of Inl e \<Rightarrow> Inl e
              | Inr cmds' \<Rightarrow> read_paths fs ps cmds')
          else read_paths fs ps (plain_lines (splitlines text) cmds))"

definition slice_from :: "int \<Rightarrow> 'a list \<Rightarrow> 'a list" where
  \<comment> \<open>\<^verbatim>\<open>xs[start:]\<close>: a negative start counts from the end, and the start is clamped\<close>
  "slice_from start xs =
     (let n = int (length xs);
          s = (if start < 0 then max (start + n) 0 else min start n)
      in drop (nat s) xs)"

definition tail_window :: "int \<Rightarrow> string list \<Rightarrow> string list" where
  \<comment> \<open>\<^verbatim>\<open>if len(cmds) > max_lines: cmds = cmds[-max_lines:]\<close>\<close>
  "tail_window max_lines cmds =
     (if int (length cmds) > max_lines then slice_from (- max_lines) cmds else cmds)"

fun dedupe_loop :: "string list \<Rightarrow> string set \<Rightarrow> string list \<Rightarrow> string list" where
  \<comment> \<open>the loop over \<^verbatim>\<open>reversed(cmds)\<close> with its \<^verbatim>\<open>seen\<close> and \<^verbatim>\<open>uniq\<close>\<close>
  "dedupe_loop [] seen uniq = uniq"
| "dedupe_loop (cmd # rest) seen uniq =
     (if cmd \<in> seen then dedupe_loop rest seen uniq
      else dedupe_loop rest (insert cmd seen) (uniq @ [cmd]))"

definition read_history :: "filesystem \<Rightarrow> string list \<Rightarrow> int \<Rightarrow> py_error + string list" where
  "read_history fs paths max_lines =
     (case read_paths fs paths []
      of Inl e \<Rightarrow> Inl e
       | Inr cmds \<Rightarrow> Inr (dedupe_loop (rev (tail_window max_lines cmds)) {} []))"

definition raw_cmds :: "filesystem \<Rightarrow> string list \<Rightarrow> string list" where
  \<comment> \<open>the list \<^verbatim>\<open>cmds\<close> after the loop over the paths, once the loop is known to finish\<close>
  "raw_cmds fs paths = (case read_paths fs paths [] of Inr cmds \<Rightarrow> cmds | Inl e \<Rightarrow> [])"

section \<open>The specification's reading of the ranker\<close>

text \<open>
  The tiers as the specification words them: positions in the lower-cased entry at which
  the lower-cased query occurs, and the whitespace-delimited tokens of the entry.
\<close>

definition occurs_at :: "string \<Rightarrow> string \<Rightarrow> nat \<Rightarrow> bool" where
  "occurs_at q e i = (take (length q) (drop i e) = q)"

definition first_occurrence :: "string \<Rightarrow> string \<Rightarrow> nat option" where
  "first_occurrence q e = List.find (occurs_at q e) [0..<Suc (length e)]"

definition first_token :: "string \<Rightarrow> string option" where
  "first_token e = (case split e of [] \<Rightarrow> None | t # ts \<Rightarrow> Some t)"

definition exact_match :: "string \<Rightarrow> string \<Rightarrow> bool" where
  "exact_match q e = (e = q)"

definition prefix_then_separator :: "string \<Rightarrow> string \<Rightarrow> bool" where
  "prefix_then_separator q e =
     (occurs_at q e 0 \<and> length q < length e
      \<and> (e ! length q = CHR '' '' \<or> e ! length q = CHR 0x09))"

definition first_token_equals :: "string \<Rightarrow> string \<Rightarrow> bool" where
  "first_token_equals q e = (first_token e = Some q)"

definition first_token_starts :: "string \<Rightarrow> string \<Rightarrow> bool" where
  "first_token_starts q e =
     (case first_token e of None \<Rightarrow> False | Some t \<Rightarrow> occurs_at q t 0)"

definition equals_some_token :: "string \<Rightarrow> string \<Rightarrow> bool" where
  "equals_some_token q e = (q \<in> set (split e))"

definition preceded_by_separator :: "string \<Rightarrow> string \<Rightarrow> bool" where
  "preceded_by_separator q e =
     (\<exists>i<length e. (e ! i = CHR '' '' \<or> e ! i = CHR ''/'') \<and> occurs_at q e (Suc i))"

definition is_substring :: "string \<Rightarrow> string \<Rightarrow> bool" where
  "is_substring q e = (\<exists>i\<le>length e. occurs_at q e i)"

definition spec_score :: "scorer \<Rightarrow> string \<Rightarrow> string \<Rightarrow> real \<times> nat" where
  "spec_score fuzz q e =
     (let ql = lower q; el = lower e; n = length e in
      if exact_match ql el then (1000, 0)
      else if prefix_then_separator ql el then (900, n)
      else if first_token_equals ql el then (850, n)
      else if first_token_starts ql el then (800, n)
      else if equals_some_token ql el then (700, n)
      else if preceded_by_separator ql el then (600, n)
      else (case first_occurrence ql el
            of Some pos \<Rightarrow> (500 - real pos, n)
             | None \<Rightarrow> (fuzz ql el, n)))"






definition rank_by_composite_key :: "scorer \<Rightarrow> string \<Rightarrow> string list \<Rightarrow> string list" where
  "rank_by_composite_key fuzz q items =
     map snd (sort_key (\<lambda>p. (rank_key fuzz (lower q) (snd p), fst p)) (enumerate 0 items))"

definition falls_in_tier7 :: "string \<Rightarrow> string \<Rightarrow> bool" where
  "falls_in_tier7 q e =
     (let ql = lower q; el = lower e in
      is_substring ql el \<and> \<not> exact_match ql el \<and> \<not> prefix_then_separator ql el
      \<and> \<not> first_token_equals ql el \<and> \<not> first_token_starts ql el
      \<and> \<not> equals_some_token ql el \<and> \<not> preceded_by_separator ql el)"

section \<open>The specification's reading of the normalizer\<close>

fun keep_first :: "'a list \<Rightarrow> 'a list" where
  \<comment> \<open>keep the first occurrence met of each distinct element, drop every later one\<close>
  "keep_first [] = []"
| "keep_first (x # xs) = x # keep_first (filter (\<lambda>y. y \<noteq> x) xs)"

definition last_entries :: "nat \<Rightarrow> 'a list \<Rightarrow> 'a list" where
  \<comment> \<open>the last \<open>n\<close> elements of a list, the whole list when it has fewer\<close>
  "last_entries n xs = drop (length xs - n) xs"

section \<open>Properties of the string primitives\<close>

lemma startswith_occurs_at: "startswith s p = occurs_at p s 0"
  by (simp add: startswith_def occurs_at_def)

lemma find_map_option:
  "List.find P (map f xs) = map_option f (List.find (\<lambda>x. P (f x)) xs)"
  by (induction xs) simp_all

lemma occurs_at_Cons_Suc: "occurs_at q (c # cs) (Suc i) = occurs_at q cs i"
  by (simp add: occurs_at_def)

lemma find_sub_first_occurrence: "find_sub e q = first_occurrence q e"
proof (induction e)
  case Nil
  show ?case by (auto simp: first_occurrence_def occurs_at_def)
next
  case (Cons c cs)
  have upt: "[0..<Suc (length (c # cs))] = 0 # map Suc [0..<Suc (length cs)]"
    unfolding map_Suc_upt length_Cons by (rule upt_conv_Cons) simp
  have "first_occurrence q (c # cs) =
      (if occurs_at q (c # cs) 0 then Some 0
       else map_option Suc (List.find (\<lambda>i. occurs_at q (c # cs) (Suc i)) [0..<Suc (length cs)]))"
    unfolding first_occurrence_def upt by (simp only: find.simps find_map_option)
  also have "\<dots> =
      (if occurs_at q (c # cs) 0 then Some 0 else map_option Suc (first_occurrence q cs))"
    by (simp only: occurs_at_Cons_Suc first_occurrence_def)
  finally show ?case
    using Cons by (simp add: startswith_occurs_at)
qed

lemma first_occurrence_None: "first_occurrence q e = None \<longleftrightarrow> \<not> is_substring q e"
proof -
  have "set [0..<Suc (length e)] = {i. i \<le> length e}" by auto
  then show ?thesis
    unfolding first_occurrence_def find_None_iff is_substring_def by auto
qed

lemma contains_is_substring: "contains e q = is_substring q e"
  by (simp add: contains_def find_sub_first_occurrence first_occurrence_None)

lemma occurs_at_Cons:
  "occurs_at (c # q) e i \<longleftrightarrow> i < length e \<and> e ! i = c \<and> occurs_at q e (Suc i)"
proof (cases "i < length e")
  case True
  then have "drop i e = e ! i # drop (Suc i) e" by (simp add: Cons_nth_drop_Suc)
  then show ?thesis using True by (auto simp: occurs_at_def)
next
  case False
  then show ?thesis by (simp add: occurs_at_def)
qed

lemma is_substring_Cons:
  "is_substring (c # q) e \<longleftrightarrow> (\<exists>i<length e. e ! i = c \<and> occurs_at q e (Suc i))"
  unfolding is_substring_def occurs_at_Cons by (metis less_imp_le_nat)

lemma contains_separator:
  "contains e ('' '' @ q) \<or> contains e (''/'' @ q) \<longleftrightarrow> preceded_by_separator q e"
proof -
  have "contains e ('' '' @ q) = (\<exists>i<length e. e ! i = CHR '' '' \<and> occurs_at q e (Suc i))"
    and "contains e (''/'' @ q) = (\<exists>i<length e. e ! i = CHR ''/'' \<and> occurs_at q e (Suc i))"
    by (simp_all add: contains_is_substring is_substring_Cons)
  then show ?thesis
    unfolding preceded_by_separator_def by blast
qed

lemma startswith_snoc:
  "startswith e (q @ [c]) \<longleftrightarrow> occurs_at q e 0 \<and> length q < length e \<and> e ! length q = c"
proof (cases "length q < length e")
  case True
  then show ?thesis
    by (auto simp: startswith_def occurs_at_def take_Suc_conv_app_nth)
next
  case False
  then have "length (take (length (q @ [c])) e) \<noteq> length (q @ [c])" by simp
  then have "take (length (q @ [c])) e \<noteq> q @ [c]" by metis
  with False show ?thesis by (simp add: startswith_def)
qed

lemma startswith_separator:
  "startswith e (q @ '' '') \<or> startswith e (q @ [CHR 0x09]) \<longleftrightarrow> prefix_then_separator q e"
  by (auto simp: startswith_snoc prefix_then_separator_def)

section \<open>Stable sorting\<close>

lemma sorted_map_fst:
  fixes zs :: "('a::linorder \<times> 'b::linorder) list"
  assumes "sorted zs"
  shows "sorted (map fst zs)"
proof -
  have "sorted_wrt (\<lambda>x y. fst x \<le> fst y) zs"
    using assms by (rule sorted_wrt_mono_rel [rotated]) (auto simp: less_eq_prod_def)
  then show ?thesis by (simp add: sorted_map)
qed

lemma sorted_same_fst:
  fixes zs :: "('a::linorder \<times> 'b::linorder) list"
  assumes "sorted zs" and "\<forall>z\<in>set zs. fst z = c"
  shows "sorted (map snd zs)"
proof -
  have "sorted_wrt (\<lambda>x y. snd x \<le> snd y) zs"
    using assms(1)
  proof (rule sorted_wrt_mono_rel [rotated])
    fix x y assume "x \<in> set zs" "y \<in> set zs" "x \<le> y"
    with assms(2) show "snd x \<le> snd y" by (auto simp: less_eq_prod_def)
  qed
  then show ?thesis by (simp add: sorted_map)
qed

lemma sort_key_index:
  fixes f :: "'a \<Rightarrow> 'k::linorder"
  shows "map snd (sort_key (\<lambda>p. (f (snd p), fst p)) (enumerate n xs)) = sort_key f xs"
proof (rule properties_for_sort_key [symmetric])
  let ?g = "\<lambda>p::nat \<times> 'a. (f (snd p), fst p)"
  let ?E = "enumerate n xs"
  let ?S = "sort_key ?g ?E"
  show "mset (map snd ?S) = mset xs"
  proof -
    have "mset (map snd ?S) = image_mset snd (mset ?E)" by simp
    also have "\<dots> = mset (map snd ?E)" by (simp only: mset_map)
    also have "\<dots> = mset xs" by (simp only: map_snd_enumerate)
    finally show ?thesis .
  qed
  show "sorted (map f (map snd ?S))"
  proof -
    have "sorted (map ?g ?S)" by (rule sorted_sort_key)
    then have "sorted (map fst (map ?g ?S))" by (rule sorted_map_fst)
    then show ?thesis by (simp add: o_def)
  qed
  fix k assume "k \<in> set (map snd ?S)"
  let ?P = "\<lambda>p::nat \<times> 'a. f k = f (snd p)"
  let ?A = "filter ?P ?S"
  let ?B = "filter ?P ?E"
  have msetAB: "mset ?A = mset ?B" by (simp only: mset_filter mset_sort)
  have "sorted (map ?g ?A)"
    by (rule sorted_filter) (rule sorted_sort_key)
  moreover have "\<forall>z\<in>set (map ?g ?A). fst z = f k" by simp
  ultimately have "sorted (map snd (map ?g ?A))" by (rule sorted_same_fst)
  then have sA: "sorted (map fst ?A)" by (simp add: o_def)
  have sB: "sorted (map fst ?B)"
    by (rule sorted_filter) simp
  have "mset (map fst ?A) = mset (map fst ?B)"
    by (simp only: mset_map msetAB)
  then have "sort (map fst ?B) = map fst ?A"
    using sA by (rule properties_for_sort)
  then have fstAB: "map fst ?A = map fst ?B"
    using sB by (simp add: sorted_sort_id)
  have "inj_on fst (set ?E)"
    using distinct_map [of fst ?E] by simp
  moreover have "set ?A \<union> set ?B \<subseteq> set ?E" by auto
  ultimately have "inj_on fst (set ?A \<union> set ?B)" by (rule inj_on_subset)
  then have "?A = ?B"
    using fstAB by (simp add: inj_on_map_eq_map)
  then have "map snd ?A = map snd ?B" by (rule arg_cong)
  moreover have "filter (\<lambda>x. f k = f x) (map snd ?S) = map snd ?A"
    by (simp only: filter_map o_def)
  moreover have "filter (\<lambda>x. f k = f x) (map snd ?E) = map snd ?B"
    by (simp only: filter_map o_def)
  moreover have "map snd ?E = xs"
    by (rule map_snd_enumerate)
  ultimately show "filter (\<lambda>x. f k = f x) (map snd ?S) = filter (\<lambda>x. f k = f x) xs"
    by (simp only:)
qed

section \<open>Properties of the ranker\<close>

lemma score_item_spec_score:
  assumes "q \<noteq> []"
  shows "score_item fuzz (lower q) e = Inr (spec_score fuzz q e)"
proof -
  define ql where "ql = lower q"
  define el where "el = lower e"
  define fw where "fw = (case first_token el of None \<Rightarrow> [] | Some t \<Rightarrow> t)"
  have ql: "ql \<noteq> []"
    using assms by (simp add: ql_def lower_def)
  have c2: "(startswith el (ql @ '' '') \<or> startswith el (ql @ [CHR 0x09]))
      = prefix_then_separator ql el"
    by (rule startswith_separator)
  have first_word: "(if split el \<noteq> [] then item_at (split el) 0 else Inr []) = Inr fw"
    by (cases "split el") (simp_all add: item_at_def first_token_def fw_def)
  have c3: "(fw = ql) = first_token_equals ql el"
    using ql by (auto simp: first_token_equals_def fw_def split: option.splits)
  have c4: "startswith fw ql = first_token_starts ql el"
    using ql by (auto simp: first_token_starts_def startswith_occurs_at occurs_at_def fw_def
        split: option.splits)
  have c5: "(ql \<in> set (split el)) = equals_some_token ql el"
    by (simp add: equals_some_token_def)
  have c6: "(contains el ('' '' @ ql) \<or> contains el (''/'' @ ql)) = preceded_by_separator ql el"
    by (rule contains_separator)
  have c7: "contains el ql = (first_occurrence ql el \<noteq> None)"
    by (simp add: contains_def find_sub_first_occurrence)
  have ix: "index el ql =
      (case first_occurrence ql el of None \<Rightarrow> Inl ValueError | Some i \<Rightarrow> Inr i)"
    by (simp add: index_def find_sub_first_occurrence)
  show ?thesis
    unfolding score_item_def spec_score_def Let_def ql_def [symmetric] el_def [symmetric]
      first_word c2 c5 c6 c7 ix exact_match_def
    by (simp add: c3 c4 split: option.splits)
qed

lemma index_contains: "contains s sub \<Longrightarrow> \<exists>i. index s sub = Inr i"
  by (auto simp: contains_def index_def)

lemma item_at_0: "xs \<noteq> [] \<Longrightarrow> item_at xs 0 = Inr (hd xs)"
  by (cases xs) (simp_all add: item_at_def)

lemma score_item_total: "score_item fuzz ql item = Inr (score_of fuzz ql item)"
proof -
  have "\<exists>s. score_item fuzz ql item = Inr s"
    unfolding score_item_def Let_def
    by (auto simp: item_at_0 dest!: index_contains)
  then show ?thesis by (auto simp: score_of_def)
qed

lemma score_all_total:
  "score_all fuzz ql items = Inr (map (\<lambda>item. (item, score_of fuzz ql item)) items)"
  by (induction items) (simp_all add: score_item_total)

lemma insort_key_map:
  "insort_key f (g x) (map g ys) = map g (insort_key (\<lambda>y. f (g y)) x ys)"
  by (induction ys) simp_all

lemma sort_key_map:
  "sort_key f (map g xs) = map g (sort_key (\<lambda>y. f (g y)) xs)"
  by (induction xs) (simp_all add: insort_key_map)

lemma sort_by_similarity_Some:
  "q \<noteq> [] \<Longrightarrow> sort_by_similarity fuzz (Some q) items =
     Inr (sort_key (rank_key fuzz (lower q)) items)"
  by (simp add: sort_by_similarity_def score_all_total sort_key_map sort_key_of_def
      rank_key_def [abs_def] Let_def o_def)

lemma score_of_spec_score: "q \<noteq> [] \<Longrightarrow> score_of fuzz (lower q) e = spec_score fuzz q e"
  by (simp add: score_of_def score_item_spec_score)

lemma mset_sort_by_similarity:
  "\<exists>out. sort_by_similarity fuzz query items = Inr out \<and> mset out = mset items"
proof (cases query)
  case None
  then show ?thesis by (simp add: sort_by_similarity_def)
next
  case (Some q)
  then show ?thesis
    by (cases "q = []") (simp_all add: sort_by_similarity_Some, simp add: sort_by_similarity_def)
qed

lemma split_scan_token:
  "t \<in> set (split_scan cur s) \<Longrightarrow> \<exists>a b. cur @ s = a @ t @ b"
proof (induction s arbitrary: cur)
  case Nil
  then have "t = cur" by (simp split: if_splits)
  then have "cur @ [] = [] @ t @ []" by simp
  then show ?case by blast
next
  case (Cons c cs)
  show ?case
  proof (cases "isspace c")
    case False
    with Cons.prems have "t \<in> set (split_scan (cur @ [c]) cs)" by simp
    from Cons.IH [OF this] show ?thesis by simp
  next
    case True
    with Cons.prems consider "t = cur" | "t \<in> set (split_scan [] cs)"
      by (auto split: if_splits)
    then show ?thesis
    proof cases
      case 1
      then have "cur @ c # cs = [] @ t @ (c # cs)" by simp
      then show ?thesis by blast
    next
      case 2
      from Cons.IH [OF this] obtain a b where "cs = a @ t @ b" by auto
      then have "cur @ c # cs = (cur @ c # a) @ t @ b" by simp
      then show ?thesis by blast
    qed
  qed
qed

lemma occurs_at_prefix_of_token:
  assumes "t \<in> set (split e)" and "occurs_at q t 0"
  shows "is_substring q e"
proof -
  from assms(1) obtain a b where e: "e = a @ t @ b"
    using split_scan_token [of t "[]" e] by (auto simp: split_def)
  from assms(2) have q: "take (length q) t = q" by (simp add: occurs_at_def)
  from arg_cong [OF q, of length] have "length q \<le> length t" by simp
  with q have "take (length q) (t @ b) = q" by simp
  then have "occurs_at q e (length a)" by (simp add: occurs_at_def e)
  moreover have "length a \<le> length e" by (simp add: e)
  ultimately show ?thesis unfolding is_substring_def by blast
qed

lemma no_substring_no_tier:
  assumes "\<not> is_substring q e"
  shows "\<not> exact_match q e" "\<not> prefix_then_separator q e" "\<not> first_token_equals q e"
    "\<not> first_token_starts q e" "\<not> equals_some_token q e" "\<not> preceded_by_separator q e"
proof -
  have at: "\<not> occurs_at q e i" if "i \<le> length e" for i
    using assms that unfolding is_substring_def by blast
  have self: "occurs_at q q 0" by (simp add: occurs_at_def)
  show "\<not> exact_match q e"
    using at [of 0] self by (auto simp: exact_match_def)
  show "\<not> prefix_then_separator q e"
    using at [of 0] by (simp add: prefix_then_separator_def)
  show "\<not> first_token_equals q e"
    using occurs_at_prefix_of_token [of q e q] self assms
    by (auto simp: first_token_equals_def first_token_def split: list.splits)
  show "\<not> first_token_starts q e"
  proof
    assume "first_token_starts q e"
    then obtain t ts where "split e = t # ts" and "occurs_at q t 0"
      by (auto simp: first_token_starts_def first_token_def split: list.splits)
    then have "is_substring q e"
      using occurs_at_prefix_of_token [of t e q] by simp
    with assms show False by simp
  qed
  show "\<not> equals_some_token q e"
    using occurs_at_prefix_of_token [of q e q] self assms
    by (auto simp: equals_some_token_def)
  show "\<not> preceded_by_separator q e"
    using at by (auto simp: preceded_by_separator_def Suc_le_eq)
qed







lemma tier7_score:
  assumes "q \<noteq> []" and "falls_in_tier7 q e"
  shows "\<exists>pos. first_occurrence (lower q) (lower e) = Some pos
           \<and> score_item fuzz (lower q) e = Inr (500 - real pos, length e)"
proof -
  from assms(2) have "first_occurrence (lower q) (lower e) \<noteq> None"
    by (simp add: falls_in_tier7_def Let_def first_occurrence_None)
  then obtain pos where "first_occurrence (lower q) (lower e) = Some pos" by auto
  with assms show ?thesis
    by (simp add: score_item_spec_score spec_score_def falls_in_tier7_def Let_def)
qed

lemma lower_xab: "lower (replicate n CHR ''x'' @ ''ab'') = replicate n CHR ''x'' @ ''ab''"
  by (simp add: lower_def lower_char_def)

lemma split_scan_no_space:
  "\<forall>c\<in>set s. \<not> isspace c \<Longrightarrow> cur @ s \<noteq> [] \<Longrightarrow> split_scan cur s = [cur @ s]"
  by (induction s arbitrary: cur) simp_all

lemma find_sub_absent_head: "c \<notin> set s \<Longrightarrow> find_sub s (c # q) = None"
  by (induction s) (auto simp: startswith_def)

lemma find_sub_xab: "find_sub (replicate n CHR ''x'' @ ''ab'') ''ab'' = Some n"
  by (induction n) (simp_all add: startswith_def)

lemma split_xab: "split (replicate n CHR ''x'' @ ''ab'') = [replicate n CHR ''x'' @ ''ab'']"
  unfolding split_def by (rule split_scan_no_space [of _ "[]", simplified]) (auto simp: isspace_def)

lemma tier7_xab:
  assumes "0 < n"
  shows "falls_in_tier7 ''ab'' (replicate n CHR ''x'' @ ''ab'')"
proof -
  let ?e = "replicate n CHR ''x'' @ ''ab''"
  from assms obtain m where n: "n = Suc m" by (cases n) auto
  have "is_substring ''ab'' ?e"
    by (simp add: contains_is_substring [symmetric] contains_def find_sub_xab)
  moreover have "\<not> exact_match ''ab'' ?e"
    by (simp add: exact_match_def n)
  moreover have "\<not> occurs_at ''ab'' ?e 0"
    by (simp add: occurs_at_def n)
  moreover have "\<not> preceded_by_separator ''ab'' ?e"
    by (simp add: contains_separator [symmetric] contains_def find_sub_absent_head)
  ultimately show ?thesis
    by (simp add: falls_in_tier7_def lower_xab lower_def lower_char_def prefix_then_separator_def
        first_token_equals_def first_token_starts_def first_token_def equals_some_token_def
        split_xab exact_match_def)
qed

lemma score_xab:
  assumes "0 < n"
  shows "score_item fuzz ''ab'' (replicate n CHR ''x'' @ ''ab'') = Inr (500 - real n, n + 2)"
proof -
  have "first_occurrence ''ab'' (replicate n CHR ''x'' @ ''ab'') = Some n"
    by (simp add: find_sub_first_occurrence [symmetric] find_sub_xab)
  moreover have "lower ''ab'' = ''ab''"
    by (simp add: lower_def lower_char_def)
  ultimately show ?thesis
    using tier7_score [OF _ tier7_xab [OF assms], of fuzz] by (simp add: lower_xab)
qed

section \<open>Properties of the normalizer\<close>

lemma split_colon_once_marker:
  assumes "startswith line ''- cmd:''"
  shows "\<exists>after. item_at (split_colon_once line) 1 = Inr after"
proof -
  from assms have t: "take (length ''- cmd:'') line = ''- cmd:''"
    unfolding startswith_def .
  have "CHR '':'' \<in> set ''- cmd:''" by simp
  then have "CHR '':'' \<in> set (take (length ''- cmd:'') line)" by (simp only: t)
  then have "CHR '':'' \<in> set line" by (rule in_set_takeD)
  then show ?thesis by (simp add: split_colon_once_def item_at_def)
qed

lemma fish_lines_total: "\<exists>cmds'. fish_lines ls cmds = Inr cmds'"
proof (induction ls arbitrary: cmds)
  case Nil
  show ?case by simp
next
  case (Cons line rest)
  show ?case
  proof (cases "startswith (strip line) ''- cmd:''")
    case True
    from split_colon_once_marker [OF this] obtain after
      where "item_at (split_colon_once (strip line)) 1 = Inr after" by blast
    with True Cons.IH show ?thesis by (simp add: Let_def)
  next
    case False
    with Cons.IH show ?thesis by (simp add: Let_def)
  qed
qed

lemma read_paths_total: "\<exists>cmds'. read_paths fs ps cmds = Inr cmds'"
proof (induction ps arbitrary: cmds)
  case Nil
  show ?case by simp
next
  case (Cons p ps)
  show ?case
  proof (cases "fs p")
    case None
    with Cons.IH show ?thesis by simp
  next
    case (Some body)
    obtain c where "fish_lines (splitlines body) cmds = Inr c"
      using fish_lines_total by blast
    with Some Cons.IH show ?thesis by simp
  qed
qed

lemma read_paths_raw_cmds: "read_paths fs ps [] = Inr (raw_cmds fs ps)"
  using read_paths_total [of fs ps "[]"] by (auto simp: raw_cmds_def)

lemma dedupe_loop_keep_first:
  "dedupe_loop xs seen uniq = uniq @ keep_first (filter (\<lambda>x. x \<notin> seen) xs)"
proof (induction xs arbitrary: seen uniq)
  case Nil
  show ?case by simp
next
  case (Cons x xs)
  have "filter (\<lambda>y. y \<noteq> x) (filter (\<lambda>y. y \<notin> seen) xs) = filter (\<lambda>y. y \<notin> insert x seen) xs"
    by (induction xs) auto
  with Cons show ?case by simp
qed

lemma read_history_keep_first:
  "read_history fs ps m = Inr (keep_first (rev (tail_window m (raw_cmds fs ps))))"
  by (simp add: read_history_def read_paths_raw_cmds dedupe_loop_keep_first)

lemma set_keep_first: "set (keep_first xs) = set xs"
  by (induction xs rule: keep_first.induct) auto

lemma distinct_keep_first: "distinct (keep_first xs)"
  by (induction xs rule: keep_first.induct) (simp_all add: set_keep_first)

lemma length_keep_first: "length (keep_first xs) \<le> length xs"
proof (induction xs rule: keep_first.induct)
  case 1
  show ?case by simp
next
  case (2 x xs)
  have "length (filter (\<lambda>y. y \<noteq> x) xs) \<le> length xs" by simp
  with 2 have "length (keep_first (filter (\<lambda>y. y \<noteq> x) xs)) \<le> length xs"
    by (rule le_trans)
  then show ?case by simp
qed

lemma tail_window_positive:
  assumes "0 < m"
  shows "tail_window m cmds = last_entries (nat m) cmds"
proof (cases "int (length cmds) > m")
  case True
  with assms have "nat (int (length cmds) - m) = length cmds - nat m" by linarith
  with True assms show ?thesis
    by (simp add: tail_window_def slice_from_def last_entries_def Let_def max_def)
next
  case False
  then have "length cmds - nat m = 0" by linarith
  with False show ?thesis by (simp add: tail_window_def last_entries_def)
qed

lemma length_last_entries: "length (last_entries n xs) = min n (length xs)"
  by (simp add: last_entries_def)

lemmas eval_defs = score_item_def lower_def lower_char_def char_of_def split_def isspace_def
  startswith_def contains_def index_def item_at_def Let_def

section \<open>The claims about the ranker\<close>

text \<open>
  C1. For every non-empty query and every entry, \<^verbatim>\<open>score_item\<close> returns the pair that the
  precedence list of the specification gives, read top to bottom with the first match
  winning, on the lower-cased query and entry: exact match (1000, 0); prefix followed by a
  space or tab (900, length); first token equal (850, length); first token starting with
  the query (800, length); some token equal (700, length); query preceded by a space or a
  slash (600, length); substring first found at \<open>pos\<close> (500 - pos, length); otherwise the
  fuzzy score with the length. Ranking \<^verbatim>\<open>"ls"\<close> over the four entries of the example puts
  \<^verbatim>\<open>"ls"\<close> first.
\<close>

theorem score_item_follows_precedence:
  assumes "q \<noteq> []"
  shows "score_item fuzz (lower q) e = Inr (spec_score fuzz q e)
    \<and> sort_by_similarity fuzz (Some ''ls'') [''ls -la'', ''git ls-files'', ''ls'', ''echo ls'']
        = Inr [''ls'', ''ls -la'', ''echo ls'', ''git ls-files'']"
proof
  show "score_item fuzz (lower q) e = Inr (spec_score fuzz q e)"
    using assms by (rule score_item_spec_score)
  show "sort_by_similarity fuzz (Some ''ls'') [''ls -la'', ''git ls-files'', ''ls'', ''echo ls'']
      = Inr [''ls'', ''ls -la'', ''echo ls'', ''git ls-files'']"
    by (simp add: sort_by_similarity_def sort_key_of_def eval_defs)
qed

theorem score_item_follows_precedence_witness:
  "''ls'' \<noteq> [] \<and> score_item zero_fuzz (lower ''ls'') ''git ls-files'' = Inr (600, 12)
   \<and> score_item zero_fuzz (lower ''ls'') ''als'' = Inr (499, 3)
   \<and> score_item zero_fuzz (lower ''ls'') ''cd ..'' = Inr (0, 5)"
proof -
  have "spec_score zero_fuzz ''ls'' ''git ls-files'' = (600, 12)"
    and "spec_score zero_fuzz ''ls'' ''als'' = (499, 3)"
    and "spec_score zero_fuzz ''ls'' ''cd ..'' = (0, 5)"
    by code_simp+
  then show ?thesis
    using score_item_follows_precedence [of "''ls''" zero_fuzz "''git ls-files''"]
      score_item_follows_precedence [of "''ls''" zero_fuzz "''als''"]
      score_item_follows_precedence [of "''ls''" zero_fuzz "''cd ..''"]
    by simp
qed

text \<open>
  C2, as amended. For every non-empty query and every entry that falls into tier 7, the
  tier is 500 minus the index of the first occurrence of the lower-cased query in the
  lower-cased entry. It is below 600, and it is above 400 exactly when that index is
  below 100: the source does not clamp the value.
\<close>

theorem tier7_value:
  assumes "q \<noteq> []" and "falls_in_tier7 q e"
  shows "\<exists>pos. first_occurrence (lower q) (lower e) = Some pos
      \<and> score_item fuzz (lower q) e = Inr (500 - real pos, length e)
      \<and> 500 - real pos < 600
      \<and> (400 < 500 - real pos \<longleftrightarrow> pos < 100)"
proof -
  from tier7_score [OF assms, of fuzz] obtain pos
    where "first_occurrence (lower q) (lower e) = Some pos"
      and "score_item fuzz (lower q) e = Inr (500 - real pos, length e)"
    by blast
  moreover have "500 - real pos < 600" by simp
  moreover have "400 < 500 - real pos \<longleftrightarrow> pos < 100" by auto
  ultimately show ?thesis by blast
qed

theorem tier7_value_witness:
  "''ls'' \<noteq> [] \<and> falls_in_tier7 ''ls'' ''als''
   \<and> score_item zero_fuzz (lower ''ls'') ''als'' = Inr (499, 3)"
proof -
  have t7: "falls_in_tier7 ''ls'' ''als''" by code_simp
  have "first_occurrence (lower ''ls'') (lower ''als'') = Some 1" by code_simp
  with tier7_value [OF _ t7, of zero_fuzz] t7 show ?thesis by auto
qed

text \<open>
  An entry of 450 letters \<^verbatim>\<open>x\<close> followed by \<^verbatim>\<open>ab\<close> falls into tier 7 for the query
  \<^verbatim>\<open>ab\<close> and gets the tier 50, outside the interval from 400 to 600 and inside the
  range of the fuzzy scores.
\<close>

theorem tier7_unclamped_counterexample:
  "falls_in_tier7 ''ab'' (replicate 450 CHR ''x'' @ ''ab'')
   \<and> score_item zero_fuzz (lower ''ab'') (replicate 450 CHR ''x'' @ ''ab'') = Inr (50, 452)
   \<and> \<not> (400 < (50::real) \<and> (50::real) < 600)"
proof -
  have "lower ''ab'' = ''ab''" by (simp add: lower_def lower_char_def)
  then show ?thesis
    using tier7_xab [of 450] score_xab [of 450 zero_fuzz] by simp
qed

text \<open>
  C3. For every non-empty query and every list of items, the output is the list sorted by
  descending tier, then ascending tiebreak, then position in the input: it is the sort of
  the numbered items by the key (negated tier, tiebreak, index). It is sorted by the key
  of tier and tiebreak, and the items of equal key keep their input order.
\<close>

theorem sort_by_similarity_order:
  assumes "q \<noteq> []"
  shows "sort_by_similarity fuzz (Some q) items = Inr (rank_by_composite_key fuzz q items)
    \<and> sorted (map (rank_key fuzz (lower q)) (rank_by_composite_key fuzz q items))
    \<and> (\<forall>k. filter (\<lambda>e. rank_key fuzz (lower q) e = k) (rank_by_composite_key fuzz q items)
            = filter (\<lambda>e. rank_key fuzz (lower q) e = k) items)"
proof -
  have eq: "rank_by_composite_key fuzz q items = sort_key (rank_key fuzz (lower q)) items"
    unfolding rank_by_composite_key_def by (rule sort_key_index)
  show ?thesis
    unfolding eq using assms by (simp add: sort_by_similarity_Some sort_key_stable)
qed

theorem sort_by_similarity_order_witness:
  "''ls'' \<noteq> []
   \<and> sort_by_similarity zero_fuzz (Some ''ls'') [''ls -la --color=auto'', ''ls -la'', ''ls -l'', ''ls'']
       = Inr [''ls'', ''ls -l'', ''ls -la'', ''ls -la --color=auto'']
   \<and> sort_by_similarity zero_fuzz (Some ''ls'') [''cd b'', ''cd a'', ''ls'']
       = Inr [''ls'', ''cd b'', ''cd a'']"
proof -
  have "rank_by_composite_key zero_fuzz ''ls''
      [''ls -la --color=auto'', ''ls -la'', ''ls -l'', ''ls'']
      = [''ls'', ''ls -l'', ''ls -la'', ''ls -la --color=auto'']"
    and "rank_by_composite_key zero_fuzz ''ls'' [''cd b'', ''cd a'', ''ls'']
      = [''ls'', ''cd b'', ''cd a'']"
    by code_simp+
  then show ?thesis
    using sort_by_similarity_order [of "''ls''" zero_fuzz
        "[''ls -la --color=auto'', ''ls -la'', ''ls -l'', ''ls'']"]
      sort_by_similarity_order [of "''ls''" zero_fuzz "[''cd b'', ''cd a'', ''ls'']"]
    by simp
qed

text \<open>
  C6. For every query and every list of items the ranker returns a permutation of the
  items: the same multiset of strings and the same length.
\<close>

theorem sort_by_similarity_permutation:
  "\<exists>out. sort_by_similarity fuzz query items = Inr out
      \<and> mset out = mset items \<and> length out = length items"
proof -
  obtain out where "sort_by_similarity fuzz query items = Inr out" and "mset out = mset items"
    using mset_sort_by_similarity by blast
  moreover from this have "length out = length items"
    by (metis size_mset)
  ultimately show ?thesis by blast
qed

theorem sort_by_similarity_permutation_witness:
  "\<exists>out. sort_by_similarity zero_fuzz (Some ''git'') [''cd /some/path'', ''git commit'', ''echo git'']
        = Inr out
      \<and> mset out = mset [''cd /some/path'', ''git commit'', ''echo git''] \<and> length out = length [''cd /some/path'', ''git commit'', ''echo git'']"
  using sort_by_similarity_permutation
    [of zero_fuzz "Some ''git''" "[''cd /some/path'', ''git commit'', ''echo git'']"] .

text \<open>
  C7. For every list of items, an absent query and the empty query return the items
  unchanged.
\<close>

theorem sort_by_similarity_empty_query:
  "sort_by_similarity fuzz None items = Inr items
   \<and> sort_by_similarity fuzz (Some []) items = Inr items"
  by (simp add: sort_by_similarity_def)

theorem sort_by_similarity_empty_query_witness:
  "sort_by_similarity zero_fuzz None [''ls'', ''cd'', ''git''] = Inr [''ls'', ''cd'', ''git'']
   \<and> sort_by_similarity zero_fuzz (Some []) [''ls'', ''cd'', ''git''] = Inr [''ls'', ''cd'', ''git'']"
  using sort_by_similarity_empty_query [of zero_fuzz "[''ls'', ''cd'', ''git'']"] .

text \<open>
  C8. The ranker never raises: for every query and every list of items it returns a
  list, and the empty list for no items; \<^verbatim>\<open>score_item\<close> returns a pair for every entry,
  entries of whitespace only included; and an entry in which the lower-cased query does
  not occur gets the fuzzy score with its length.
\<close>

theorem sort_by_similarity_never_fails:
  "(\<exists>out. sort_by_similarity fuzz query items = Inr out)
   \<and> sort_by_similarity fuzz query [] = Inr []
   \<and> (\<exists>s. score_item fuzz ql e = Inr s)
   \<and> (q \<noteq> [] \<and> \<not> is_substring (lower q) (lower e)
        \<longrightarrow> score_item fuzz (lower q) e = Inr (fuzz (lower q) (lower e), length e))"
proof (intro conjI impI)
  show "\<exists>out. sort_by_similarity fuzz query items = Inr out"
    using mset_sort_by_similarity by blast
  obtain out where "sort_by_similarity fuzz query [] = Inr out" and "mset out = mset []"
    using mset_sort_by_similarity by blast
  then show "sort_by_similarity fuzz query [] = Inr []" by simp
  show "\<exists>s. score_item fuzz ql e = Inr s"
    using score_item_total by blast
  assume a: "q \<noteq> [] \<and> \<not> is_substring (lower q) (lower e)"
  then have n: "\<not> is_substring (lower q) (lower e)" by simp
  have none: "first_occurrence (lower q) (lower e) = None"
    using n by (simp add: first_occurrence_None)
  have "spec_score fuzz q e = (fuzz (lower q) (lower e), length e)"
    unfolding spec_score_def Let_def
    using no_substring_no_tier [OF n] none by simp
  with a show "score_item fuzz (lower q) e = Inr (fuzz (lower q) (lower e), length e)"
    by (simp add: score_item_spec_score)
qed

theorem sort_by_similarity_never_fails_witness:
  "sort_by_similarity zero_fuzz (Some ''ls'') [] = Inr []
   \<and> ''ls'' \<noteq> [] \<and> \<not> is_substring (lower ''ls'') (lower ''   '')
   \<and> score_item zero_fuzz (lower ''ls'') ''   '' = Inr (0, 3)
   \<and> sort_by_similarity zero_fuzz (Some ''ls'') [''   '', ''cd ..''] = Inr [''   '', ''cd ..'']"
proof -
  have sub: "\<not> is_substring (lower ''ls'') (lower ''   '')"
    by (simp add: contains_is_substring [symmetric] contains_def startswith_def lower_def
        lower_char_def)
  have hist: "sort_by_similarity zero_fuzz (Some ''ls'') [''   '', ''cd ..''] = Inr [''   '', ''cd ..'']"
    by code_simp
  have z: "zero_fuzz (lower ''ls'') (lower ''   '') = 0"
    by (simp add: zero_fuzz_def)
  show ?thesis
    using sort_by_similarity_never_fails
        [where fuzz = zero_fuzz and query = "Some ''ls''" and items = "[]" and ql = "[]"
          and e = "''   ''" and q = "''ls''"] sub hist z
    by simp
qed




section \<open>The claims about the normalizer\<close>

text \<open>
  C4. For every file system, list of paths and \<^verbatim>\<open>max_lines\<close>, \<^verbatim>\<open>read_history\<close> returns
  the windowed commands scanned from the end toward the start with the first occurrence
  of each text kept: a list without duplicates that holds every windowed command. The
  lines \<^verbatim>\<open>a b a c\<close> of one plain history give \<^verbatim>\<open>c a b\<close>.
\<close>

theorem read_history_newest_first_unique:
  "\<exists>h. read_history fs paths max_lines = Inr h
      \<and> h = keep_first (rev (tail_window max_lines (raw_cmds fs paths)))
      \<and> distinct h
      \<and> set h = set (tail_window max_lines (raw_cmds fs paths))
      \<and> raw_cmds [''.bash_history'' \<mapsto> ''a\<newline>b\<newline>a\<newline>c\<newline>''] [''.bash_history'']
          = [''a'', ''b'', ''a'', ''c'']
      \<and> read_history [''.bash_history'' \<mapsto> ''a\<newline>b\<newline>a\<newline>c\<newline>''] [''.bash_history'']
            1000 = Inr [''c'', ''a'', ''b'']"
proof -
  have "raw_cmds [''.bash_history'' \<mapsto> ''a\<newline>b\<newline>a\<newline>c\<newline>''] [''.bash_history'']
      = [''a'', ''b'', ''a'', ''c'']"
    by code_simp
  moreover have "read_history [''.bash_history'' \<mapsto> ''a\<newline>b\<newline>a\<newline>c\<newline>'']
      [''.bash_history''] 1000 = Inr [''c'', ''a'', ''b'']"
    by code_simp
  ultimately show ?thesis
    by (simp add: read_history_keep_first distinct_keep_first set_keep_first)
qed

theorem read_history_newest_first_unique_witness:
  "read_history [''.zsh_history'' \<mapsto> ''ls\<newline>LS\<newline>\<newline>ls\<newline>''] [''.bash_history'', ''.zsh_history'']
     1000 = Inr [''ls'', ''LS'']"
proof -
  have "keep_first (rev (tail_window 1000
      (raw_cmds [''.zsh_history'' \<mapsto> ''ls\<newline>LS\<newline>\<newline>ls\<newline>'']
        [''.bash_history'', ''.zsh_history'']))) = [''ls'', ''LS'']"
    by code_simp
  then show ?thesis
    using read_history_newest_first_unique
      [of "[''.zsh_history'' \<mapsto> ''ls\<newline>LS\<newline>\<newline>ls\<newline>'']"
        "[''.bash_history'', ''.zsh_history'']" 1000]
    by auto
qed

text \<open>
  C5. The window before deduplication. With \<^verbatim>\<open>max_lines = 2\<close> the commands \<^verbatim>\<open>a b c\<close>
  are cut to \<^verbatim>\<open>b c\<close>. With \<^verbatim>\<open>max_lines = 0\<close> the last zero commands are none, but the
  slice \<^verbatim>\<open>cmds[-0:]\<close> of the source is the whole list: all three commands stay and reach
  the result.
\<close>

theorem tail_window_zero_keeps_all:
  "raw_cmds [''.bash_history'' \<mapsto> ''a\<newline>b\<newline>c\<newline>''] [''.bash_history''] = [''a'', ''b'', ''c'']
   \<and> tail_window 2 [''a'', ''b'', ''c''] = [''b'', ''c'']
   \<and> last_entries 0 [''a'', ''b'', ''c''] = []
   \<and> tail_window 0 [''a'', ''b'', ''c''] = [''a'', ''b'', ''c'']
   \<and> read_history [''.bash_history'' \<mapsto> ''a\<newline>b\<newline>c\<newline>''] [''.bash_history''] 0
       = Inr [''c'', ''b'', ''a'']"
  by code_simp

text \<open>
  C10. For every file system, list of paths and positive \<^verbatim>\<open>max_lines\<close>, the list that
  \<^verbatim>\<open>read_history\<close> returns has at most \<^verbatim>\<open>max_lines\<close> elements.
\<close>

theorem read_history_length_bound:
  assumes "0 < max_lines"
  shows "\<exists>h. read_history fs paths max_lines = Inr h \<and> int (length h) \<le> max_lines"
proof -
  let ?w = "tail_window max_lines (raw_cmds fs paths)"
  have "length (keep_first (rev ?w)) \<le> length (rev ?w)"
    by (rule length_keep_first)
  also have "\<dots> = min (nat max_lines) (length (raw_cmds fs paths))"
    using assms by (simp add: tail_window_positive length_last_entries)
  also have "\<dots> \<le> nat max_lines" by simp
  finally have "int (length (keep_first (rev ?w))) \<le> max_lines"
    using assms by linarith
  then show ?thesis
    by (simp add: read_history_keep_first)
qed

theorem read_history_length_bound_witness:
  "(0::int) < 2
   \<and> read_history [''.bash_history'' \<mapsto> ''a\<newline>b\<newline>c\<newline>b\<newline>''] [''.bash_history''] 2
       = Inr [''b'', ''c'']
   \<and> int (length [''b'', ''c'']) \<le> 2"
proof -
  have "read_history [''.bash_history'' \<mapsto> ''a\<newline>b\<newline>c\<newline>b\<newline>''] [''.bash_history''] 2
      = Inr [''b'', ''c'']"
    by code_simp
  then show ?thesis
    using read_history_length_bound
      [of 2 "[''.bash_history'' \<mapsto> ''a\<newline>b\<newline>c\<newline>b\<newline>'']" "[''.bash_history'']"]
    by simp
qed

end
